theory Spec2Isabelle
  imports Complex_Main
begin

section \<open>Smart-Route: the route-construction core\<close>

text \<open>
  The embedding follows \<^verbatim>\<open>src/main.py\<close> (the same three pieces of code occur, unchanged,
  in \<^verbatim>\<open>src/app.py\<close>): \<^verbatim>\<open>calculate_angle\<close>,
  \<^verbatim>\<open>solve_tsp_nearest_neighbor_with_right_turn_penalty\<close> and the total-distance
  sum of \<^verbatim>\<open>optimize_route\<close>.

  Python floats are read as mathematical reals, extended by the one non-finite value the
  program itself writes into a distance matrix (\<^verbatim>\<open>np.inf\<close>, for a pair of stops whose
  status is not OK). Rounding, signed zeros and NaN are outside this reading.
\<close>

subsection \<open>Data\<close>

type_synonym point = "real \<times> real"

datatype cost = Fin real | PInf

datatype error = IndexError | KeyError

text \<open>\<^verbatim>\<open>a < b\<close> and \<^verbatim>\<open>a + b\<close> on matrix entries.\<close>

fun cost_less :: "cost \<Rightarrow> cost \<Rightarrow> bool" where
  "cost_less (Fin a) (Fin b) = (a < b)"
| "cost_less (Fin a) PInf = True"
| "cost_less PInf b = False"

fun cost_plus :: "cost \<Rightarrow> cost \<Rightarrow> cost" where
  "cost_plus (Fin a) (Fin b) = Fin (a + b)"
| "cost_plus (Fin a) PInf = PInf"
| "cost_plus PInf b = PInf"

text \<open>With \<^verbatim>\<open>+\<close> and 0 the costs form a commutative monoid, so that the sums of
  the library are available for them.\<close>

instantiation cost :: comm_monoid_add
begin

definition zero_cost :: cost where
  "zero_cost = Fin 0"

definition plus_cost :: "cost \<Rightarrow> cost \<Rightarrow> cost" where
  "plus_cost a b = cost_plus a b"

instance
proof
  fix a b c :: cost
  show "a + b + c = a + (b + c)"
    unfolding plus_cost_def by (cases a; cases b; cases c) simp_all
  show "a + b = b + a"
    unfolding plus_cost_def by (cases a; cases b) simp_all
  show "0 + a = a"
    unfolding plus_cost_def zero_cost_def by (cases a) simp_all
qed

end

text \<open>\<^verbatim>\<open>xs[i]\<close> for an index that is never negative: out of range raises IndexError.\<close>

definition getitem :: "'a list \<Rightarrow> nat \<Rightarrow> error + 'a" where
  "getitem xs i = (if i < length xs then Inr (xs ! i) else Inl IndexError)"

subsection \<open>calculate_angle\<close>

text \<open>
  \<^verbatim>\<open>math.atan2(y, x)\<close>: the angle of the vector \<open>(x, y)\<close> in \<open>(-\<pi>, \<pi>]\<close>, with
  \<^verbatim>\<open>atan2(0, 0) = 0\<close>; \<^verbatim>\<open>math.degrees(x)\<close> is \<open>x * (180 / \<pi>)\<close>.
\<close>

definition atan2 :: "real \<Rightarrow> real \<Rightarrow> real" where
  "atan2 y x =
     (if 0 < x then arctan (y / x)
      else if x < 0 then (if 0 \<le> y then arctan (y / x) + pi else arctan (y / x) - pi)
      else if 0 < y then pi / 2
      else if y < 0 then - (pi / 2)
      else 0)"

definition degrees :: "real \<Rightarrow> real" where
  "degrees x = x * (180 / pi)"

definition to_vec :: "point \<Rightarrow> point \<Rightarrow> point" where
  "to_vec a b = (fst b - fst a, snd b - snd a)"

text \<open>The two normalisation loops:
  \<^verbatim>\<open>while angle <= -180: angle += 360\<close> and \<^verbatim>\<open>while angle > 180: angle -= 360\<close>.\<close>

function while_le_m180 :: "real \<Rightarrow> real" where
  "while_le_m180 angle = (if angle \<le> - 180 then while_le_m180 (angle + 360) else angle)"
  by pat_completeness auto
termination
proof (relation "measure (\<lambda>a. nat \<lceil>(- 180 - a) / 360 + 1\<rceil>)")
  show "wf (measure (\<lambda>a. nat \<lceil>(- 180 - a) / 360 + 1\<rceil>))" by simp
next
  fix angle :: real
  assume le: "angle \<le> - 180"
  have eq: "(- 180 - (angle + 360)) / 360 + 1 = ((- 180 - angle) / 360 + 1) - 1"
    by (simp add: field_simps)
  have pos: "1 \<le> \<lceil>(- 180 - angle) / 360 + 1\<rceil>"
    using le by (simp add: le_ceiling_iff)
  have "\<lceil>(- 180 - (angle + 360)) / 360 + 1\<rceil> = \<lceil>(- 180 - angle) / 360 + 1\<rceil> - 1"
    unfolding eq by (rule ceiling_diff_one)
  with pos show "(angle + 360, angle) \<in> measure (\<lambda>a. nat \<lceil>(- 180 - a) / 360 + 1\<rceil>)"
    by simp
qed

function while_gt_180 :: "real \<Rightarrow> real" where
  "while_gt_180 angle = (if 180 < angle then while_gt_180 (angle - 360) else angle)"
  by pat_completeness auto
termination
proof (relation "measure (\<lambda>a. nat \<lceil>(a - 180) / 360\<rceil>)")
  show "wf (measure (\<lambda>a. nat \<lceil>(a - 180) / 360\<rceil>))" by simp
next
  fix angle :: real
  assume gt: "180 < angle"
  have eq: "(angle - 360 - 180) / 360 = (angle - 180) / 360 - 1"
    by (simp add: field_simps)
  have pos: "1 \<le> \<lceil>(angle - 180) / 360\<rceil>"
    using gt by (simp add: le_ceiling_iff)
  have "\<lceil>(angle - 360 - 180) / 360\<rceil> = \<lceil>(angle - 180) / 360\<rceil> - 1"
    unfolding eq by (rule ceiling_diff_one)
  with pos show "(angle - 360, angle) \<in> measure (\<lambda>a. nat \<lceil>(a - 180) / 360\<rceil>)"
    by simp
qed

definition calculate_angle :: "point \<Rightarrow> point \<Rightarrow> point \<Rightarrow> real" where
  "calculate_angle p1 p2 p3 =
     (let v1 = to_vec p2 p1;
          v2 = to_vec p2 p3;
          angle1 = atan2 (snd v1) (fst v1);
          angle2 = atan2 (snd v2) (fst v2);
          angle = degrees (angle2 - angle1)
      in while_gt_180 (while_le_m180 angle))"

subsection \<open>solve_tsp_nearest_neighbor_with_right_turn_penalty\<close>

text \<open>
  The cost the inner loop computes for one candidate \<^verbatim>\<open>city\<close>:
  \<^verbatim>\<open>cost = matrix[current][city]\<close>, and, when \<^verbatim>\<open>prev is not None\<close>, the penalty added
  if \<^verbatim>\<open>-135 < angle < -45\<close>.
\<close>

definition candidate_cost ::
  "point list \<Rightarrow> cost list list \<Rightarrow> real \<Rightarrow> nat option \<Rightarrow> nat \<Rightarrow> nat \<Rightarrow> error + cost" where
  "candidate_cost coords matrix right_turn_penalty prev current city =
     (case getitem matrix current of
        Inl e \<Rightarrow> Inl e
      | Inr row \<Rightarrow>
     (case getitem row city of
        Inl e \<Rightarrow> Inl e
      | Inr cost \<Rightarrow>
     (case prev of
        None \<Rightarrow> Inr cost
      | Some p \<Rightarrow>
     (case getitem coords p of
        Inl e \<Rightarrow> Inl e
      | Inr a \<Rightarrow>
     (case getitem coords current of
        Inl e \<Rightarrow> Inl e
      | Inr b \<Rightarrow>
     (case getitem coords city of
        Inl e \<Rightarrow> Inl e
      | Inr c \<Rightarrow>
          (let angle = calculate_angle a b c
           in if - 135 < angle \<and> angle < - 45
              then Inr (cost_plus cost (Fin right_turn_penalty))
              else Inr cost)))))))"

text \<open>
  The inner loop \<^verbatim>\<open>for city in unvisited\<close>, threading \<^verbatim>\<open>(min_cost, next_city)\<close>.
  The candidate set is a list in iteration order: a CPython set of small non-negative
  integers built by \<^verbatim>\<open>set(range(1, n))\<close> is iterated in ascending order, and removing
  an element keeps the order of the others.
\<close>

fun for_city ::
  "point list \<Rightarrow> cost list list \<Rightarrow> real \<Rightarrow> nat option \<Rightarrow> nat \<Rightarrow> nat list
     \<Rightarrow> cost \<times> nat option \<Rightarrow> error + cost \<times> nat option" where
  "for_city coords matrix right_turn_penalty prev current [] acc = Inr acc"
| "for_city coords matrix right_turn_penalty prev current (city # cities) (min_cost, next_city) =
     (case candidate_cost coords matrix right_turn_penalty prev current city of
        Inl e \<Rightarrow> Inl e
      | Inr cost \<Rightarrow>
          for_city coords matrix right_turn_penalty prev current cities
            (if cost_less cost min_cost then (cost, Some city) else (min_cost, next_city)))"

text \<open>\<^verbatim>\<open>unvisited.remove(x)\<close>: KeyError when \<open>x\<close> is not in the set.\<close>

definition set_remove :: "nat list \<Rightarrow> nat \<Rightarrow> error + nat list" where
  "set_remove xs c = (if c \<in> set xs then Inr (remove1 c xs) else Inl KeyError)"

record state =
  unvisited :: "nat list"
  order :: "nat list"
  current :: nat
  prev :: "nat option"

text \<open>
  One execution of the body of \<^verbatim>\<open>while unvisited\<close>. When no candidate replaced the
  initial \<^verbatim>\<open>next_city = None\<close>, \<^verbatim>\<open>unvisited.remove(None)\<close> raises KeyError
  (\<^verbatim>\<open>None\<close> is never an element of the set).
\<close>

definition loop_body ::
  "point list \<Rightarrow> cost list list \<Rightarrow> real \<Rightarrow> state \<Rightarrow> error + state" where
  "loop_body coords matrix right_turn_penalty s =
     (case for_city coords matrix right_turn_penalty (prev s) (current s) (unvisited s) (PInf, None) of
        Inl e \<Rightarrow> Inl e
      | Inr (min_cost, next_city) \<Rightarrow>
     (case next_city of
        None \<Rightarrow> Inl KeyError
      | Some c \<Rightarrow>
     (case set_remove (unvisited s) c of
        Inl e \<Rightarrow> Inl e
      | Inr rest \<Rightarrow>
          Inr \<lparr>unvisited = rest, order = order s @ [c], current = c, prev = Some (current s)\<rparr>)))"

lemma set_remove_shorter: "set_remove xs c = Inr ys \<Longrightarrow> length ys < length xs"
proof -
  assume "set_remove xs c = Inr ys"
  then have mem: "c \<in> set xs" and ys: "ys = remove1 c xs"
    by (auto simp: set_remove_def split: if_splits)
  from mem have "0 < length xs" by (rule length_pos_if_in_set)
  with mem ys show ?thesis by (simp add: length_remove1)
qed

lemma loop_body_shorter:
  "loop_body coords matrix p s = Inr s' \<Longrightarrow> length (unvisited s') < length (unvisited s)"
  by (auto simp: loop_body_def split: sum.splits prod.splits option.splits
      dest: set_remove_shorter)

function while_unvisited ::
  "point list \<Rightarrow> cost list list \<Rightarrow> real \<Rightarrow> state \<Rightarrow> error + state" where
  "while_unvisited coords matrix right_turn_penalty s =
     (if unvisited s = [] then Inr s
      else case loop_body coords matrix right_turn_penalty s of
             Inl e \<Rightarrow> Inl e
           | Inr s' \<Rightarrow> while_unvisited coords matrix right_turn_penalty s')"
  by pat_completeness auto
termination
  by (relation "measure (\<lambda>(coords, matrix, p, s). length (unvisited s))")
     (auto dest: loop_body_shorter)

text \<open>The number of executions of the loop body that run to their end.\<close>

function iterations ::
  "point list \<Rightarrow> cost list list \<Rightarrow> real \<Rightarrow> state \<Rightarrow> nat" where
  "iterations coords matrix right_turn_penalty s =
     (if unvisited s = [] then 0
      else case loop_body coords matrix right_turn_penalty s of
             Inl e \<Rightarrow> 0
           | Inr s' \<Rightarrow> Suc (iterations coords matrix right_turn_penalty s'))"
  by pat_completeness auto
termination
  by (relation "measure (\<lambda>(coords, matrix, p, s). length (unvisited s))")
     (auto dest: loop_body_shorter)

definition initial :: "cost list list \<Rightarrow> state" where
  "initial matrix =
     \<lparr>unvisited = [1 ..< length matrix], order = [0], current = 0, prev = None\<rparr>"

definition solve_tsp_nearest_neighbor_with_right_turn_penalty ::
  "point list \<Rightarrow> cost list list \<Rightarrow> real \<Rightarrow> error + nat list" where
  "solve_tsp_nearest_neighbor_with_right_turn_penalty coords matrix right_turn_penalty =
     (case while_unvisited coords matrix right_turn_penalty (initial matrix) of
        Inl e \<Rightarrow> Inl e
      | Inr s \<Rightarrow> Inr (order s))"

subsection \<open>The total distance of a route\<close>

text \<open>
  \<^verbatim>\<open>sum(matrix[order[i]][order[i+1]] for i in range(len(order)-1))\<close>: the sum starts
  at 0 and adds the edges from left to right.
\<close>

fun sum_edges :: "cost list list \<Rightarrow> nat list \<Rightarrow> nat list \<Rightarrow> cost \<Rightarrow> error + cost" where
  "sum_edges matrix ord [] acc = Inr acc"
| "sum_edges matrix ord (i # is) acc =
     (case getitem ord i of
        Inl e \<Rightarrow> Inl e
      | Inr a \<Rightarrow>
     (case getitem matrix a of
        Inl e \<Rightarrow> Inl e
      | Inr row \<Rightarrow>
     (case getitem ord (i + 1) of
        Inl e \<Rightarrow> Inl e
      | Inr b \<Rightarrow>
     (case getitem row b of
        Inl e \<Rightarrow> Inl e
      | Inr c \<Rightarrow> sum_edges matrix ord is (cost_plus acc c)))))"

definition total_distance :: "cost list list \<Rightarrow> nat list \<Rightarrow> error + cost" where
  "total_distance matrix ord = sum_edges matrix ord [0 ..< length ord - 1] (Fin 0)"

subsection \<open>Predicates of the statements\<close>

text \<open>Every edge of a route is an entry of the matrix.\<close>

definition edges_ok :: "cost list list \<Rightarrow> nat list \<Rightarrow> bool" where
  "edges_ok matrix ord \<longleftrightarrow>
     (\<forall>a \<in> set ord. a < length matrix \<and> (\<forall>b \<in> set ord. b < length (matrix ! a)))"

text \<open>Two matrices of one shape that agree everywhere but on the diagonal.\<close>

definition agree_off_diagonal :: "cost list list \<Rightarrow> cost list list \<Rightarrow> bool" where
  "agree_off_diagonal m1 m2 \<longleftrightarrow>
     length m1 = length m2 \<and>
     (\<forall>i < length m1. length (m1 ! i) = length (m2 ! i) \<and>
        (\<forall>j < length (m1 ! i). i \<noteq> j \<longrightarrow> m1 ! i ! j = m2 ! i ! j))"

text \<open>The inputs of the specification: as many coordinates as rows, and a square matrix;
  and a matrix with no unreachable pair.\<close>

definition well_formed :: "point list \<Rightarrow> cost list list \<Rightarrow> bool" where
  "well_formed coords matrix \<longleftrightarrow>
     length coords = length matrix \<and> (\<forall>row \<in> set matrix. length row = length matrix)"

definition all_reachable :: "cost list list \<Rightarrow> bool" where
  "all_reachable matrix \<longleftrightarrow>
     (\<forall>i < length matrix. \<forall>j < length matrix. i \<noteq> j \<longrightarrow> matrix ! i ! j \<noteq> PInf)"

text \<open>The loop invariants: the city the tour stands at is not a candidate; and the order
  built so far, followed by the candidates, is a permutation of \<open>0..n-1\<close> that starts at 0.\<close>

definition apart :: "state \<Rightarrow> bool" where
  "apart s \<longleftrightarrow> distinct (unvisited s) \<and> current s \<notin> set (unvisited s)"

definition tour :: "nat \<Rightarrow> state \<Rightarrow> bool" where
  "tour n s \<longleftrightarrow>
     distinct (order s @ unvisited s) \<and> set (order s @ unvisited s) = {0 ..< n} \<and>
     order s \<noteq> [] \<and> hd (order s) = 0 \<and> current s = last (order s) \<and>
     (\<forall>q. prev s = Some q \<longrightarrow> q < n)"

text \<open>
  The cost of a candidate in the words of the specification (4.2, step 2b): the matrix
  entry, and the penalty added to it if a previous city is defined and the angle from the
  previous city over the current one to the candidate is strictly between -135 and -45.
\<close>

definition spec_cost ::
  "point list \<Rightarrow> cost list list \<Rightarrow> real \<Rightarrow> nat option \<Rightarrow> nat \<Rightarrow> nat \<Rightarrow> cost" where
  "spec_cost coords matrix penalty prv cur city =
     (case prv of
        None \<Rightarrow> matrix ! cur ! city
      | Some q \<Rightarrow>
          if - 135 < calculate_angle (coords ! q) (coords ! cur) (coords ! city) \<and>
             calculate_angle (coords ! q) (coords ! cur) (coords ! city) < - 45
          then cost_plus (matrix ! cur ! city) (Fin penalty)
          else matrix ! cur ! city)"

text \<open>
  Every selection of a route is greedy for that cost: the city at position \<open>k\<close> is one of
  the cities not visited before, and none of those is cheaper. The previous city of the
  step is absent at the first selection and is the city two positions back afterwards.
\<close>

definition greedy_steps ::
  "point list \<Rightarrow> cost list list \<Rightarrow> real \<Rightarrow> nat list \<Rightarrow> bool" where
  "greedy_steps coords matrix penalty ord \<longleftrightarrow>
     (\<forall>k. 1 \<le> k \<and> k < length ord \<longrightarrow>
        ord ! k \<in> {1 ..< length matrix} - set (take k ord) \<and>
        (\<forall>x \<in> {1 ..< length matrix} - set (take k ord).
           \<not> cost_less
               (spec_cost coords matrix penalty
                  (if k = 1 then None else Some (ord ! (k - 2))) (ord ! (k - 1)) x)
               (spec_cost coords matrix penalty
                  (if k = 1 then None else Some (ord ! (k - 2))) (ord ! (k - 1)) (ord ! k))))"

text \<open>The loop invariant that relates \<^verbatim>\<open>current\<close>, \<^verbatim>\<open>prev\<close> and \<^verbatim>\<open>unvisited\<close> to
  the order built so far.\<close>

definition on_route :: "nat \<Rightarrow> state \<Rightarrow> bool" where
  "on_route n s \<longleftrightarrow>
     order s \<noteq> [] \<and> current s = last (order s) \<and>
     prev s = (if length (order s) = 1 then None else Some (order s ! (length (order s) - 2))) \<and>
     distinct (unvisited s) \<and> set (unvisited s) = {1 ..< n} - set (order s)"

section \<open>Properties of calculate_angle\<close>

declare while_le_m180.simps [simp del] while_gt_180.simps [simp del]

lemma while_le_m180_lower: "- 180 < while_le_m180 a"
proof (induction a rule: while_le_m180.induct)
  case (1 angle)
  then show ?case by (subst while_le_m180.simps) simp
qed

lemma while_le_m180_upper: "a \<le> 180 \<Longrightarrow> while_le_m180 a \<le> 180"
proof (induction a rule: while_le_m180.induct)
  case (1 angle)
  then show ?case by (subst while_le_m180.simps) simp
qed

lemma while_le_m180_id: "- 180 < a \<Longrightarrow> while_le_m180 a = a"
  by (subst while_le_m180.simps) simp

lemma while_gt_180_upper: "while_gt_180 a \<le> 180"
proof (induction a rule: while_gt_180.induct)
  case (1 angle)
  then show ?case by (subst while_gt_180.simps) simp
qed

lemma while_gt_180_lower: "- 180 < a \<Longrightarrow> - 180 < while_gt_180 a"
proof (induction a rule: while_gt_180.induct)
  case (1 angle)
  then show ?case by (subst while_gt_180.simps) simp
qed

lemma while_le_m180_turns: "\<exists>k::int. while_le_m180 a = a + 360 * of_int k"
proof (induction a rule: while_le_m180.induct)
  case (1 angle)
  show ?case
  proof (cases "angle \<le> - 180")
    case True
    with 1 obtain k :: int where "while_le_m180 (angle + 360) = angle + 360 + 360 * of_int k"
      by blast
    with True have "while_le_m180 angle = angle + 360 * of_int (k + 1)"
      by (subst while_le_m180.simps) (simp add: algebra_simps)
    then show ?thesis by blast
  next
    case False
    then have "while_le_m180 angle = angle + 360 * of_int 0"
      by (subst while_le_m180.simps) simp
    then show ?thesis by blast
  qed
qed

lemma while_gt_180_turns: "\<exists>k::int. while_gt_180 a = a + 360 * of_int k"
proof (induction a rule: while_gt_180.induct)
  case (1 angle)
  show ?case
  proof (cases "180 < angle")
    case True
    with 1 obtain k :: int where "while_gt_180 (angle - 360) = angle - 360 + 360 * of_int k"
      by blast
    with True have "while_gt_180 angle = angle + 360 * of_int (k - 1)"
      by (subst while_gt_180.simps) (simp add: algebra_simps)
    then show ?thesis by blast
  next
    case False
    then have "while_gt_180 angle = angle + 360 * of_int 0"
      by (subst while_gt_180.simps) simp
    then show ?thesis by blast
  qed
qed

lemma wrap_range:
  "- 180 < while_gt_180 (while_le_m180 d) \<and> while_gt_180 (while_le_m180 d) \<le> 180"
  by (simp add: while_gt_180_upper while_gt_180_lower while_le_m180_lower)

lemma wrap_turns: "\<exists>k::int. while_gt_180 (while_le_m180 d) = d + 360 * of_int k"
proof -
  obtain j :: int where j: "while_le_m180 d = d + 360 * of_int j"
    using while_le_m180_turns by blast
  obtain k :: int where k: "while_gt_180 (while_le_m180 d) = while_le_m180 d + 360 * of_int k"
    using while_gt_180_turns by blast
  from k j have "while_gt_180 (while_le_m180 d) = d + 360 * of_int (j + k)"
    by (simp add: algebra_simps)
  then show ?thesis by blast
qed

lemma wrap_neg:
  fixes d :: real
  defines "x \<equiv> while_gt_180 (while_le_m180 d)"
    and "y \<equiv> while_gt_180 (while_le_m180 (- d))"
  shows "(x \<noteq> 180 \<longrightarrow> y = - x) \<and> (x = 180 \<longrightarrow> y = 180)"
proof -
  obtain j :: int where j: "x = d + 360 * of_int j"
    unfolding x_def using wrap_turns by blast
  obtain k :: int where k: "y = - d + 360 * of_int k"
    unfolding y_def using wrap_turns by blast
  have sum: "x + y = 360 * of_int (j + k)"
    unfolding j k by (simp add: algebra_simps)
  have r1: "- 180 < x" "x \<le> 180" and r2: "- 180 < y" "y \<le> 180"
    unfolding x_def y_def using wrap_range by blast+
  from r1 r2 sum have "- 360 < 360 * (of_int (j + k) :: real)" "360 * (of_int (j + k) :: real) \<le> 360"
    by linarith+
  then have "(of_int (- 1) :: real) < of_int (j + k)" "(of_int (j + k) :: real) \<le> of_int 1"
    by simp_all
  then have "- 1 < j + k" "j + k \<le> 1"
    unfolding of_int_less_iff of_int_le_iff by blast+
  then consider "j + k = 0" | "j + k = 1" by linarith
  then show ?thesis
  proof cases
    case 1
    with sum have "y = - x" by simp
    with r2 show ?thesis by auto
  next
    case 2
    with sum have "x + y = 360" by simp
    with r1 r2 have "x = 180" "y = 180" by linarith+
    then show ?thesis by simp
  qed
qed

lemma degrees_swap: "degrees (a - b) = - degrees (b - a)"
proof -
  have "a - b = - (b - a)" by simp
  then show ?thesis unfolding degrees_def by (metis mult_minus_left)
qed

lemma calculate_angle_wrap:
  "calculate_angle p1 p2 p3 =
     while_gt_180 (while_le_m180 (degrees (atan2 (snd (to_vec p2 p3)) (fst (to_vec p2 p3))
        - atan2 (snd (to_vec p2 p1)) (fst (to_vec p2 p1)))))"
  by (simp add: calculate_angle_def Let_def)

text \<open>
  C6. For every triple of points, the angle that \<^verbatim>\<open>calculate_angle\<close> returns is strictly
  greater than -180 and at most 180.
\<close>

theorem calculate_angle_range:
  "- 180 < calculate_angle p1 p2 p3 \<and> calculate_angle p1 p2 p3 \<le> 180"
  unfolding calculate_angle_wrap by (rule wrap_range)

text \<open>
  C10. Swapping the outer points negates the angle, except at 180, which stays 180: if
  \<^verbatim>\<open>calculate_angle(p1, p2, p3)\<close> is not 180 then \<^verbatim>\<open>calculate_angle(p3, p2, p1)\<close> is its
  negation, and if it is 180 then the swapped angle is 180 too. So a triple inside the
  right-turn band \<open>(-135, -45)\<close> is outside the band after the swap.
\<close>

theorem calculate_angle_antisymmetric:
  "(calculate_angle p1 p2 p3 \<noteq> 180 \<longrightarrow> calculate_angle p3 p2 p1 = - calculate_angle p1 p2 p3) \<and>
   (calculate_angle p1 p2 p3 = 180 \<longrightarrow> calculate_angle p3 p2 p1 = 180) \<and>
   (- 135 < calculate_angle p1 p2 p3 \<and> calculate_angle p1 p2 p3 < - 45 \<longrightarrow>
      \<not> (- 135 < calculate_angle p3 p2 p1 \<and> calculate_angle p3 p2 p1 < - 45))"
proof -
  define d where
    "d = degrees (atan2 (snd (to_vec p2 p3)) (fst (to_vec p2 p3))
           - atan2 (snd (to_vec p2 p1)) (fst (to_vec p2 p1)))"
  have fwd: "calculate_angle p1 p2 p3 = while_gt_180 (while_le_m180 d)"
    unfolding d_def by (rule calculate_angle_wrap)
  have "calculate_angle p3 p2 p1 =
      while_gt_180 (while_le_m180 (degrees (atan2 (snd (to_vec p2 p1)) (fst (to_vec p2 p1))
        - atan2 (snd (to_vec p2 p3)) (fst (to_vec p2 p3)))))"
    by (rule calculate_angle_wrap)
  also have "degrees (atan2 (snd (to_vec p2 p1)) (fst (to_vec p2 p1))
        - atan2 (snd (to_vec p2 p3)) (fst (to_vec p2 p3))) = - d"
    unfolding d_def by (rule degrees_swap)
  finally have bwd: "calculate_angle p3 p2 p1 = while_gt_180 (while_le_m180 (- d))" .
  have "(calculate_angle p1 p2 p3 \<noteq> 180 \<longrightarrow> calculate_angle p3 p2 p1 = - calculate_angle p1 p2 p3) \<and>
   (calculate_angle p1 p2 p3 = 180 \<longrightarrow> calculate_angle p3 p2 p1 = 180)"
    unfolding fwd bwd by (rule wrap_neg)
  then show ?thesis by auto
qed

theorem calculate_angle_antisymmetric_witness:
  "calculate_angle (1, 0) (0, 0) (0, 1) \<noteq> 180 \<and>
   calculate_angle (0, 1) (0, 0) (1, 0) = - calculate_angle (1, 0) (0, 0) (0, 1) \<and>
   calculate_angle (1, 0) (0, 0) (- 1, 0) = 180 \<and>
   calculate_angle (- 1, 0) (0, 0) (1, 0) = 180 \<and>
   (- 135 < calculate_angle (0, 1) (0, 0) (1, 0) \<and> calculate_angle (0, 1) (0, 0) (1, 0) < - 45) \<and>
   \<not> (- 135 < calculate_angle (1, 0) (0, 0) (0, 1) \<and> calculate_angle (1, 0) (0, 0) (0, 1) < - 45)"
proof -
  have a: "calculate_angle (1, 0) (0, 0) (0, 1) = 90"
    by (simp add: calculate_angle_def to_vec_def atan2_def degrees_def while_gt_180.simps while_le_m180.simps)
  have b: "calculate_angle (1, 0) (0, 0) (- 1, 0) = 180"
    by (simp add: calculate_angle_def to_vec_def atan2_def degrees_def while_gt_180.simps while_le_m180.simps)
  have c: "calculate_angle (0, 1) (0, 0) (1, 0) = - 90"
    using calculate_angle_antisymmetric [of "(1, 0)" "(0, 0)" "(0, 1)"] a by simp
  have d: "calculate_angle (- 1, 0) (0, 0) (1, 0) = 180"
    using calculate_angle_antisymmetric [of "(1, 0)" "(0, 0)" "(- 1, 0)"] b by simp
  from a b c d show ?thesis by simp
qed

section \<open>Properties of the total distance\<close>

lemma sum_edges_sum_list:
  assumes "edges_ok matrix ord" and "\<forall>i \<in> set is. i + 1 < length ord"
  shows "sum_edges matrix ord is acc =
           Inr (acc + sum_list (map (\<lambda>i. matrix ! (ord ! i) ! (ord ! (i + 1))) is))"
  using assms(2)
proof (induction "is" arbitrary: acc)
  case Nil
  then show ?case by simp
next
  case (Cons i "is")
  from Cons.prems have i: "i < length ord" "i + 1 < length ord" by simp_all
  then have mem: "ord ! i \<in> set ord" "ord ! (i + 1) \<in> set ord" by simp_all
  with assms(1) have ok: "ord ! i < length matrix" "ord ! (i + 1) < length (matrix ! (ord ! i))"
    unfolding edges_ok_def by blast+
  from Cons.prems have rest: "\<forall>i \<in> set is. i + 1 < length ord" by simp
  show ?case
    using i ok Cons.IH [OF rest]
    by (simp add: getitem_def plus_cost_def [symmetric] add.assoc)
qed

lemma total_distance_sum:
  assumes "edges_ok matrix ord"
  shows "total_distance matrix ord =
           Inr (\<Sum>i = 0 ..< length ord - 1. matrix ! (ord ! i) ! (ord ! (i + 1)))"
proof -
  have "\<forall>i \<in> set [0 ..< length ord - 1]. i + 1 < length ord" by auto
  from sum_edges_sum_list [OF assms this]
  show ?thesis
    unfolding total_distance_def
    by (simp add: zero_cost_def [symmetric] interv_sum_list_conv_sum_set_nat)
qed

lemma total_distance_short: "length ord < 2 \<Longrightarrow> total_distance matrix ord = Inr (Fin 0)"
proof -
  assume "length ord < 2"
  then have "length ord - 1 = 0" by simp
  then show ?thesis by (simp add: total_distance_def)
qed

lemma total_distance_example:
  "total_distance [[Fin 0, Fin 10, Fin 20], [Fin 10, Fin 0, Fin 15], [Fin 20, Fin 15, Fin 0]] [0, 1, 2]
     = Inr (Fin 25)"
  by (simp add: total_distance_def upt_rec getitem_def)

text \<open>
  C8. The total distance of a route whose edges are entries of the matrix is the sum of
  \<^verbatim>\<open>matrix[order[i]][order[i+1]]\<close> over \<open>i = 0 .. len(order) - 2\<close>; it is 0 for a route
  of fewer than two stops; and for the matrix \<open>[[0,10,20],[10,0,15],[20,15,0]]\<close> and the
  order \<open>[0,1,2]\<close> it is 25.
\<close>

theorem total_distance_is_edge_sum:
  "(edges_ok matrix ord \<longrightarrow>
      total_distance matrix ord =
        Inr (\<Sum>i = 0 ..< length ord - 1. matrix ! (ord ! i) ! (ord ! (i + 1)))) \<and>
   (length ord < 2 \<longrightarrow> total_distance matrix ord = Inr (Fin 0)) \<and>
   total_distance [[Fin 0, Fin 10, Fin 20], [Fin 10, Fin 0, Fin 15], [Fin 20, Fin 15, Fin 0]] [0, 1, 2]
     = Inr (Fin 25)"
  using total_distance_sum total_distance_short total_distance_example by blast

theorem total_distance_is_edge_sum_witness:
  "edges_ok [[Fin 0, Fin 10, Fin 20], [Fin 10, Fin 0, Fin 15], [Fin 20, Fin 15, Fin 0]] [0, 1, 2] \<and>
   total_distance [[Fin 0, Fin 10, Fin 20], [Fin 10, Fin 0, Fin 15], [Fin 20, Fin 15, Fin 0]] [0, 1, 2]
     = Inr (\<Sum>i = 0 ..< length [0::nat, 1, 2] - 1.
         [[Fin 0, Fin 10, Fin 20], [Fin 10, Fin 0, Fin 15], [Fin 20, Fin 15, Fin 0]]
           ! ([0, 1, 2] ! i) ! ([0, 1, 2] ! (i + 1))) \<and>
   length [0::nat] < 2 \<and>
   total_distance [[Fin 0, Fin 10, Fin 20], [Fin 10, Fin 0, Fin 15], [Fin 20, Fin 15, Fin 0]] [0]
     = Inr (Fin 0)"
proof -
  have ok: "edges_ok [[Fin 0, Fin 10, Fin 20], [Fin 10, Fin 0, Fin 15], [Fin 20, Fin 15, Fin 0]] [0, 1, 2]"
    by (simp add: edges_ok_def)
  have short: "length [0::nat] < 2" by simp
  show ?thesis
    using ok short
      total_distance_is_edge_sum
        [of "[[Fin 0, Fin 10, Fin 20], [Fin 10, Fin 0, Fin 15], [Fin 20, Fin 15, Fin 0]]" "[0, 1, 2]"]
      total_distance_is_edge_sum
        [of "[[Fin 0, Fin 10, Fin 20], [Fin 10, Fin 0, Fin 15], [Fin 20, Fin 15, Fin 0]]" "[0]"]
    by blast
qed

text \<open>A route with an unreachable edge has total distance \<open>+\<infinity>\<close>.\<close>

lemma sum_PInf:
  fixes f :: "nat \<Rightarrow> cost"
  assumes "finite S" "i \<in> S" "f i = PInf"
  shows "sum f S = PInf"
proof -
  have "sum f S = f i + sum f (S - {i})" using assms(1,2) by (rule sum.remove)
  then show ?thesis using assms(3) by (simp add: plus_cost_def)
qed

lemma total_distance_unreachable_edge:
  assumes "edges_ok matrix ord" "i + 1 < length ord" "matrix ! (ord ! i) ! (ord ! (i + 1)) = PInf"
  shows "total_distance matrix ord = Inr PInf"
proof -
  have "(\<Sum>k = 0 ..< length ord - 1. matrix ! (ord ! k) ! (ord ! (k + 1))) = PInf"
    using assms(2,3) by (intro sum_PInf [where i = i]) auto
  with total_distance_sum [OF assms(1)] show ?thesis by simp
qed

section \<open>Properties of the solver\<close>

declare while_unvisited.simps [simp del] iterations.simps [simp del]

text \<open>
  C3. With an empty matrix (\<open>n = 0\<close>) the solver does not return an empty order: the start
  index 0 is placed in the order before the loop, the loop body never runs, and the result
  is \<open>[0]\<close>, whatever the coordinate list and the penalty are.
\<close>

theorem solve_empty_matrix:
  "solve_tsp_nearest_neighbor_with_right_turn_penalty coords [] right_turn_penalty = Inr [0]"
  by (simp add: solve_tsp_nearest_neighbor_with_right_turn_penalty_def initial_def
      while_unvisited.simps)

theorem solve_empty_not_empty_order:
  "solve_tsp_nearest_neighbor_with_right_turn_penalty [] [] 500 \<noteq> Inr []"
  by (simp add: solve_tsp_nearest_neighbor_with_right_turn_penalty_def initial_def
      while_unvisited.simps)

subsection \<open>The scan of the candidates\<close>

lemma cost_less_trans: "cost_less a b \<Longrightarrow> cost_less b c \<Longrightarrow> cost_less a c"
  by (cases a; cases b; cases c) simp_all

lemma cost_less_not_less_trans: "cost_less a b \<Longrightarrow> \<not> cost_less c b \<Longrightarrow> cost_less a c"
  by (cases a; cases b; cases c) simp_all

lemma cost_less_asym: "cost_less a b \<Longrightarrow> \<not> cost_less b a"
  by (cases a; cases b) simp_all

lemma cost_less_PInf: "cost_less a PInf \<longleftrightarrow> a \<noteq> PInf"
  by (cases a) simp_all

lemma for_city_result:
  assumes "for_city coords matrix p prv cur cs (m0, nc0) = Inr (m, nc)"
  shows "(m = m0 \<and> nc = nc0 \<and>
            (\<forall>x \<in> set cs. \<exists>k. candidate_cost coords matrix p prv cur x = Inr k \<and> \<not> cost_less k m0)) \<or>
         (\<exists>xs c ys. cs = xs @ c # ys \<and> nc = Some c \<and>
            candidate_cost coords matrix p prv cur c = Inr m \<and> cost_less m m0 \<and>
            (\<forall>x \<in> set xs. \<exists>k. candidate_cost coords matrix p prv cur x = Inr k \<and> cost_less m k) \<and>
            (\<forall>y \<in> set ys. \<exists>k. candidate_cost coords matrix p prv cur y = Inr k \<and> \<not> cost_less k m))"
  using assms
proof (induction cs arbitrary: m0 nc0)
  case Nil
  then show ?case by simp
next
  case (Cons city cs)
  from Cons.prems obtain k where k: "candidate_cost coords matrix p prv cur city = Inr k"
    by (auto split: sum.splits)
  show ?case
  proof (cases "cost_less k m0")
    case True
    with Cons.prems k
    have run: "for_city coords matrix p prv cur cs (k, Some city) = Inr (m, nc)" by simp
    from Cons.IH [OF run] show ?thesis
    proof (elim disjE exE conjE)
      assume "m = k" "nc = Some city"
        and "\<forall>x \<in> set cs. \<exists>j. candidate_cost coords matrix p prv cur x = Inr j \<and> \<not> cost_less j k"
      with k True have
        "city # cs = [] @ city # cs \<and> nc = Some city \<and>
          candidate_cost coords matrix p prv cur city = Inr m \<and> cost_less m m0 \<and>
          (\<forall>x \<in> set []. \<exists>k. candidate_cost coords matrix p prv cur x = Inr k \<and> cost_less m k) \<and>
          (\<forall>y \<in> set cs. \<exists>k. candidate_cost coords matrix p prv cur y = Inr k \<and> \<not> cost_less k m)"
        by simp
      then show ?thesis by blast
    next
      fix xs c ys
      assume a: "cs = xs @ c # ys" "nc = Some c"
        "candidate_cost coords matrix p prv cur c = Inr m" "cost_less m k"
        "\<forall>x \<in> set xs. \<exists>j. candidate_cost coords matrix p prv cur x = Inr j \<and> cost_less m j"
        "\<forall>y \<in> set ys. \<exists>j. candidate_cost coords matrix p prv cur y = Inr j \<and> \<not> cost_less j m"
      from a(4) True have "cost_less m m0" by (rule cost_less_trans)
      with a k have
        "city # cs = (city # xs) @ c # ys \<and> nc = Some c \<and>
          candidate_cost coords matrix p prv cur c = Inr m \<and> cost_less m m0 \<and>
          (\<forall>x \<in> set (city # xs). \<exists>k. candidate_cost coords matrix p prv cur x = Inr k \<and> cost_less m k) \<and>
          (\<forall>y \<in> set ys. \<exists>k. candidate_cost coords matrix p prv cur y = Inr k \<and> \<not> cost_less k m)"
        by simp
      then show ?thesis by blast
    qed
  next
    case False
    with Cons.prems k
    have run: "for_city coords matrix p prv cur cs (m0, nc0) = Inr (m, nc)" by simp
    from Cons.IH [OF run] show ?thesis
    proof (elim disjE exE conjE)
      assume "m = m0" "nc = nc0"
        and "\<forall>x \<in> set cs. \<exists>j. candidate_cost coords matrix p prv cur x = Inr j \<and> \<not> cost_less j m0"
      with k False show ?thesis by simp
    next
      fix xs c ys
      assume a: "cs = xs @ c # ys" "nc = Some c"
        "candidate_cost coords matrix p prv cur c = Inr m" "cost_less m m0"
        "\<forall>x \<in> set xs. \<exists>j. candidate_cost coords matrix p prv cur x = Inr j \<and> cost_less m j"
        "\<forall>y \<in> set ys. \<exists>j. candidate_cost coords matrix p prv cur y = Inr j \<and> \<not> cost_less j m"
      from a(4) False have "cost_less m k" by (rule cost_less_not_less_trans)
      with a k have
        "city # cs = (city # xs) @ c # ys \<and> nc = Some c \<and>
          candidate_cost coords matrix p prv cur c = Inr m \<and> cost_less m m0 \<and>
          (\<forall>x \<in> set (city # xs). \<exists>k. candidate_cost coords matrix p prv cur x = Inr k \<and> cost_less m k) \<and>
          (\<forall>y \<in> set ys. \<exists>k. candidate_cost coords matrix p prv cur y = Inr k \<and> \<not> cost_less k m)"
        by simp
      then show ?thesis by blast
    qed
  qed
qed

lemma for_city_winner:
  assumes "for_city coords matrix p prv cur cs (PInf, None) = Inr (m, Some c)"
  shows "\<exists>xs ys. cs = xs @ c # ys \<and>
            candidate_cost coords matrix p prv cur c = Inr m \<and> m \<noteq> PInf \<and>
            (\<forall>x \<in> set xs. \<exists>k. candidate_cost coords matrix p prv cur x = Inr k \<and> cost_less m k) \<and>
            (\<forall>y \<in> set ys. \<exists>k. candidate_cost coords matrix p prv cur y = Inr k \<and> \<not> cost_less k m)"
  using for_city_result [OF assms] by (auto simp: cost_less_PInf)

lemma for_city_no_winner:
  assumes "for_city coords matrix p prv cur cs (PInf, None) = Inr (m, None)"
  shows "\<forall>x \<in> set cs. candidate_cost coords matrix p prv cur x = Inr PInf"
  using for_city_result [OF assms] by (auto simp: cost_less_PInf)

lemma loop_body_Inr:
  assumes "loop_body coords matrix p s = Inr s'"
  shows "\<exists>m. for_city coords matrix p (prev s) (current s) (unvisited s) (PInf, None)
              = Inr (m, Some (current s')) \<and>
             current s' \<in> set (unvisited s) \<and>
             s' = \<lparr>unvisited = remove1 (current s') (unvisited s),
                   order = order s @ [current s'], current = current s', prev = Some (current s)\<rparr>"
  using assms
  by (auto simp: loop_body_def set_remove_def split: sum.splits prod.splits option.splits if_splits)

lemma while_unvisited_unfold:
  "unvisited s \<noteq> [] \<Longrightarrow>
     while_unvisited coords matrix p s =
       (case loop_body coords matrix p s of
          Inl e \<Rightarrow> Inl e
        | Inr s' \<Rightarrow> while_unvisited coords matrix p s')"
  by (subst while_unvisited.simps) simp

lemma while_unvisited_done: "unvisited s = [] \<Longrightarrow> while_unvisited coords matrix p s = Inr s"
  by (subst while_unvisited.simps) simp

lemma iterations_unfold:
  "unvisited s \<noteq> [] \<Longrightarrow>
     iterations coords matrix p s =
       (case loop_body coords matrix p s of
          Inl e \<Rightarrow> 0
        | Inr s' \<Rightarrow> Suc (iterations coords matrix p s'))"
  by (subst iterations.simps) simp

lemma iterations_done: "unvisited s = [] \<Longrightarrow> iterations coords matrix p s = 0"
  by (subst iterations.simps) simp

subsection \<open>Concrete runs\<close>

lemma angle_right: "calculate_angle (0, 1) (0, 0) (1, 0) = - 90"
  by (simp add: calculate_angle_def to_vec_def atan2_def degrees_def
      while_gt_180.simps while_le_m180.simps)

lemma angle_straight: "calculate_angle (0, 0) (1, 0) (2, 0) = 180"
  by (simp add: calculate_angle_def to_vec_def atan2_def degrees_def
      while_gt_180.simps while_le_m180.simps)

lemma angle_left: "calculate_angle (0, 1) (0, 0) (- 1, 0) = 90"
  by (simp add: calculate_angle_def to_vec_def atan2_def degrees_def
      while_gt_180.simps while_le_m180.simps)

lemma angle_back: "calculate_angle (0, 0) (- 1, 0) (1, 0) = 0"
  by (simp add: calculate_angle_def to_vec_def atan2_def degrees_def
      while_gt_180.simps while_le_m180.simps)

lemma angle_back': "calculate_angle (0, 0) (1, 0) (- 1, 0) = 0"
  by (simp add: calculate_angle_def to_vec_def atan2_def degrees_def
      while_gt_180.simps while_le_m180.simps)

lemma solve_penalised_run:
  "solve_tsp_nearest_neighbor_with_right_turn_penalty [(0, 1), (0, 0), (1, 0), (- 1, 0)]
     [[Fin 0, Fin 1, Fin 5, Fin 5], [Fin 1, Fin 0, Fin 2, Fin 3],
      [Fin 5, Fin 2, Fin 0, Fin 4], [Fin 5, Fin 3, Fin 4, Fin 0]] 500 = Inr [0, 1, 3, 2]"
  by (simp add: solve_tsp_nearest_neighbor_with_right_turn_penalty_def initial_def upt_rec
      while_unvisited.simps loop_body_def candidate_cost_def getitem_def set_remove_def
      angle_right angle_left angle_back)

lemma solve_unpenalised_run:
  "solve_tsp_nearest_neighbor_with_right_turn_penalty [(0, 1), (0, 0), (1, 0), (- 1, 0)]
     [[Fin 0, Fin 1, Fin 5, Fin 5], [Fin 1, Fin 0, Fin 2, Fin 3],
      [Fin 5, Fin 2, Fin 0, Fin 4], [Fin 5, Fin 3, Fin 4, Fin 0]] 0 = Inr [0, 1, 2, 3]"
  by (simp add: solve_tsp_nearest_neighbor_with_right_turn_penalty_def initial_def upt_rec
      while_unvisited.simps loop_body_def candidate_cost_def getitem_def set_remove_def
      angle_right angle_left angle_back')

subsection \<open>Tie-breaking\<close>

text \<open>
  In every step that selects a city, the selected city is the first candidate, in the
  iteration order of the candidate set, that attains the minimal penalised cost: every
  candidate before it costs strictly more, and no candidate after it costs less. The cost
  of a selected city is finite.
\<close>

lemma loop_body_selects_first_minimum:
  assumes "loop_body coords matrix p s = Inr s'"
  shows "\<exists>xs ys m. unvisited s = xs @ current s' # ys \<and> order s' = order s @ [current s'] \<and>
           candidate_cost coords matrix p (prev s) (current s) (current s') = Inr m \<and>
           m \<noteq> PInf \<and>
           (\<forall>x \<in> set xs. \<exists>k. candidate_cost coords matrix p (prev s) (current s) x = Inr k
                             \<and> cost_less m k) \<and>
           (\<forall>y \<in> set ys. \<exists>k. candidate_cost coords matrix p (prev s) (current s) y = Inr k
                             \<and> \<not> cost_less k m)"
proof -
  from loop_body_Inr [OF assms] obtain m where
    run: "for_city coords matrix p (prev s) (current s) (unvisited s) (PInf, None)
            = Inr (m, Some (current s'))"
    and s': "s' = \<lparr>unvisited = remove1 (current s') (unvisited s),
                   order = order s @ [current s'], current = current s', prev = Some (current s)\<rparr>"
    by blast
  have ord: "order s' = order s @ [current s']"
    by (subst s') simp
  from for_city_winner [OF run] ord show ?thesis by blast
qed

text \<open>
  C4. Three stops of which the first has no route to the others: in the first step both
  candidates attain the minimal cost \<open>+\<infinity>\<close>. The scan replaces the best-so-far only on
  strict improvement, \<^verbatim>\<open>inf < inf\<close> is false, and so the tie has no winner at all:
  \<^verbatim>\<open>next_city\<close> is still \<^verbatim>\<open>None\<close> and the solver raises KeyError, where the first
  candidate encountered, city 1, is to win.
\<close>

theorem tie_at_infinity_selects_nothing:
  "candidate_cost [(0, 0), (1, 0), (2, 0)]
     [[Fin 0, PInf, PInf], [PInf, Fin 0, Fin 1], [PInf, Fin 1, Fin 0]] 500 None 0 1 = Inr PInf \<and>
   candidate_cost [(0, 0), (1, 0), (2, 0)]
     [[Fin 0, PInf, PInf], [PInf, Fin 0, Fin 1], [PInf, Fin 1, Fin 0]] 500 None 0 2 = Inr PInf \<and>
   for_city [(0, 0), (1, 0), (2, 0)]
     [[Fin 0, PInf, PInf], [PInf, Fin 0, Fin 1], [PInf, Fin 1, Fin 0]] 500 None 0 [1, 2]
     (PInf, None) = Inr (PInf, None) \<and>
   solve_tsp_nearest_neighbor_with_right_turn_penalty [(0, 0), (1, 0), (2, 0)]
     [[Fin 0, PInf, PInf], [PInf, Fin 0, Fin 1], [PInf, Fin 1, Fin 0]] 500 = Inl KeyError"
  by (simp add: solve_tsp_nearest_neighbor_with_right_turn_penalty_def initial_def upt_rec
      while_unvisited.simps loop_body_def candidate_cost_def getitem_def)

subsection \<open>The right-turn penalty\<close>

lemma candidate_cost_spec:
  "candidate_cost coords matrix pen prv cur city = Inr k \<Longrightarrow>
     k = spec_cost coords matrix pen prv cur city"
  by (auto simp: candidate_cost_def spec_cost_def getitem_def Let_def
      split: sum.splits option.splits if_splits)

lemma loop_body_minimal:
  assumes "loop_body coords matrix pen s = Inr s'"
  shows "current s' \<in> set (unvisited s) \<and>
         (\<forall>x \<in> set (unvisited s).
            \<not> cost_less (spec_cost coords matrix pen (prev s) (current s) x)
                         (spec_cost coords matrix pen (prev s) (current s) (current s')))"
proof -
  from loop_body_Inr [OF assms] obtain m where
    run: "for_city coords matrix pen (prev s) (current s) (unvisited s) (PInf, None)
            = Inr (m, Some (current s'))"
    and mem: "current s' \<in> set (unvisited s)"
    by blast
  from for_city_winner [OF run] obtain xs ys where
    split: "unvisited s = xs @ current s' # ys"
    and win: "candidate_cost coords matrix pen (prev s) (current s) (current s') = Inr m"
    and before: "\<forall>x \<in> set xs. \<exists>k. candidate_cost coords matrix pen (prev s) (current s) x = Inr k
                   \<and> cost_less m k"
    and after: "\<forall>y \<in> set ys. \<exists>k. candidate_cost coords matrix pen (prev s) (current s) y = Inr k
                   \<and> \<not> cost_less k m"
    by blast
  from win have m: "m = spec_cost coords matrix pen (prev s) (current s) (current s')"
    by (rule candidate_cost_spec)
  have "\<not> cost_less (spec_cost coords matrix pen (prev s) (current s) x) m"
    if "x \<in> set (unvisited s)" for x
  proof -
    from that split consider "x \<in> set xs" | "x = current s'" | "x \<in> set ys" by auto
    then show ?thesis
    proof cases
      case 1
      with before obtain k where k: "candidate_cost coords matrix pen (prev s) (current s) x = Inr k"
        and less: "cost_less m k" by blast
      from k have "k = spec_cost coords matrix pen (prev s) (current s) x"
        by (rule candidate_cost_spec)
      with less show ?thesis using cost_less_asym by blast
    next
      case 2
      with m show ?thesis using cost_less_asym by blast
    next
      case 3
      with after obtain k where k: "candidate_cost coords matrix pen (prev s) (current s) x = Inr k"
        and nless: "\<not> cost_less k m" by blast
      from k have "k = spec_cost coords matrix pen (prev s) (current s) x"
        by (rule candidate_cost_spec)
      with nless show ?thesis by simp
    qed
  qed
  with mem m show ?thesis by blast
qed

lemma greedy_steps_single: "greedy_steps coords matrix pen [c]"
  by (simp add: greedy_steps_def)

lemma on_route_initial: "on_route (length matrix) (initial matrix)"
  by (auto simp: on_route_def initial_def)

lemma loop_body_on_route:
  assumes step: "loop_body coords matrix pen s = Inr s'"
    and inv: "on_route (length matrix) s"
    and greedy: "greedy_steps coords matrix pen (order s)"
  shows "on_route (length matrix) s' \<and> greedy_steps coords matrix pen (order s')"
proof -
  let ?n = "length matrix"
  let ?c = "current s'"
  let ?l = "length (order s)"
  from loop_body_Inr [OF step]
  have s': "s' = \<lparr>unvisited = remove1 ?c (unvisited s),
                   order = order s @ [?c], current = ?c, prev = Some (current s)\<rparr>"
    by blast
  have u: "unvisited s' = remove1 ?c (unvisited s)"
    and ord: "order s' = order s @ [?c]"
    and prv: "prev s' = Some (current s)"
    by (subst s', simp)+
  from inv have ne: "order s \<noteq> []" and cur: "current s = last (order s)"
    and pr: "prev s = (if ?l = 1 then None else Some (order s ! (?l - 2)))"
    and dist: "distinct (unvisited s)"
    and cand: "set (unvisited s) = {1 ..< ?n} - set (order s)"
    by (simp_all add: on_route_def)
  from loop_body_minimal [OF step]
  have mem: "?c \<in> set (unvisited s)"
    and least: "\<forall>x \<in> set (unvisited s).
            \<not> cost_less (spec_cost coords matrix pen (prev s) (current s) x)
                         (spec_cost coords matrix pen (prev s) (current s) ?c)"
    by blast+
  from ne have pos: "0 < ?l" by simp
  from ne cur have last_nth: "current s = order s ! (?l - 1)" by (simp add: last_conv_nth)
  have route: "on_route ?n s'"
  proof -
    from pos have "prev s' = (if length (order s') = 1 then None
                              else Some (order s' ! (length (order s') - 2)))"
      unfolding prv ord using last_nth by (simp add: nth_append)
    moreover from dist have "distinct (unvisited s')" unfolding u by simp
    moreover from dist cand have "set (unvisited s') = {1 ..< ?n} - set (order s')"
      unfolding u ord by auto
    moreover have "order s' \<noteq> []" "current s' = last (order s')" unfolding ord by simp_all
    ultimately show ?thesis unfolding on_route_def by blast
  qed
  have steps: "greedy_steps coords matrix pen (order s')"
    unfolding greedy_steps_def
  proof (intro allI impI)
    fix k
    assume k: "1 \<le> k \<and> k < length (order s')"
    show "order s' ! k \<in> {1 ..< ?n} - set (take k (order s')) \<and>
        (\<forall>x \<in> {1 ..< ?n} - set (take k (order s')).
           \<not> cost_less
               (spec_cost coords matrix pen
                  (if k = 1 then None else Some (order s' ! (k - 2))) (order s' ! (k - 1)) x)
               (spec_cost coords matrix pen
                  (if k = 1 then None else Some (order s' ! (k - 2))) (order s' ! (k - 1))
                  (order s' ! k)))"
    proof (cases "k < ?l")
      case True
      then have "k - 1 < ?l" "k - 2 < ?l" by simp_all
      with True have old: "order s' ! k = order s ! k" "order s' ! (k - 1) = order s ! (k - 1)"
        "order s' ! (k - 2) = order s ! (k - 2)" "take k (order s') = take k (order s)"
        unfolding ord by (simp_all add: nth_append)
      from greedy k True show ?thesis unfolding greedy_steps_def old by blast
    next
      case False
      with k have keq: "k = ?l" unfolding ord by simp
      with pos have new: "order s' ! k = ?c" "order s' ! (k - 1) = current s"
        "take k (order s') = order s"
        unfolding ord using last_nth by (simp_all add: nth_append)
      have "(if k = 1 then None else Some (order s' ! (k - 2))) = prev s"
      proof (cases "k = 1")
        case True
        with keq pr show ?thesis by simp
      next
        case False
        with keq pos have "order s' ! (k - 2) = order s ! (?l - 2)"
          unfolding ord by (simp add: nth_append)
        with False keq pr show ?thesis by simp
      qed
      with mem least show ?thesis unfolding new cand [symmetric] by simp
    qed
  qed
  from route steps show ?thesis ..
qed

lemma while_unvisited_greedy:
  "while_unvisited coords matrix pen s = Inr t \<Longrightarrow> on_route (length matrix) s \<Longrightarrow>
     greedy_steps coords matrix pen (order s) \<Longrightarrow> greedy_steps coords matrix pen (order t)"
proof (induction coords matrix pen s rule: while_unvisited.induct)
  case (1 coords matrix pen s)
  show ?case
  proof (cases "unvisited s = []")
    case True
    with "1.prems" show ?thesis by (simp add: while_unvisited_done)
  next
    case False
    show ?thesis
    proof (cases "loop_body coords matrix pen s")
      case (Inl e)
      with "1.prems"(1) False show ?thesis by (simp add: while_unvisited_unfold)
    next
      case (Inr s')
      with "1.prems"(1) False have run: "while_unvisited coords matrix pen s' = Inr t"
        by (simp add: while_unvisited_unfold)
      from loop_body_on_route [OF Inr "1.prems"(2,3)]
      have "on_route (length matrix) s'" "greedy_steps coords matrix pen (order s')" by blast+
      with "1.IH" [OF False Inr run] show ?thesis by blast
    qed
  qed
qed

text \<open>
  C5. In every greedy step of a run that returns an order, the selected city is a
  remaining candidate of minimal cost, where the cost of a candidate is its matrix entry
  plus the penalty exactly when a previous city exists and the angle from it over the
  current city to the candidate is strictly between -135 and -45, and the bare matrix
  entry otherwise. Step \<open>k\<close> selects \<open>ord ! k\<close> from the current city \<open>ord ! (k - 1)\<close>;
  the first step (\<open>k = 1\<close>) has no previous city, so no candidate is penalised in it, and
  every later step has the previous city \<open>ord ! (k - 2)\<close>.
\<close>

theorem right_turn_penalty_rule:
  assumes "solve_tsp_nearest_neighbor_with_right_turn_penalty coords matrix penalty = Inr ord"
    and "1 \<le> k" "k < length ord"
  shows "ord ! k \<in> {1 ..< length matrix} - set (take k ord) \<and>
         (\<forall>x \<in> {1 ..< length matrix} - set (take k ord).
            \<not> cost_less
                (spec_cost coords matrix penalty
                   (if k = 1 then None else Some (ord ! (k - 2))) (ord ! (k - 1)) x)
                (spec_cost coords matrix penalty
                   (if k = 1 then None else Some (ord ! (k - 2))) (ord ! (k - 1)) (ord ! k)))"
proof -
  from assms(1) obtain t where
    run: "while_unvisited coords matrix penalty (initial matrix) = Inr t" and ord: "ord = order t"
    by (auto simp: solve_tsp_nearest_neighbor_with_right_turn_penalty_def split: sum.splits)
  have "greedy_steps coords matrix penalty (order (initial matrix))"
    by (simp add: initial_def greedy_steps_single)
  from while_unvisited_greedy [OF run on_route_initial this]
  have "greedy_steps coords matrix penalty ord" unfolding ord .
  with assms(2,3) show ?thesis unfolding greedy_steps_def by blast
qed

text \<open>
  Four stops: in the second step city 2 is the nearer one but a right turn of -90 degrees,
  city 3 is a left turn of 90 degrees. With the penalty of 500 the step selects city 3;
  with a penalty of 0 it selects city 2.
\<close>

theorem right_turn_penalty_rule_witness:
  "solve_tsp_nearest_neighbor_with_right_turn_penalty [(0, 1), (0, 0), (1, 0), (- 1, 0)]
     [[Fin 0, Fin 1, Fin 5, Fin 5], [Fin 1, Fin 0, Fin 2, Fin 3],
      [Fin 5, Fin 2, Fin 0, Fin 4], [Fin 5, Fin 3, Fin 4, Fin 0]] 500 = Inr [0, 1, 3, 2] \<and>
   (1 :: nat) \<le> 2 \<and> 2 < length [0 :: nat, 1, 3, 2] \<and>
   spec_cost [(0, 1), (0, 0), (1, 0), (- 1, 0)]
     [[Fin 0, Fin 1, Fin 5, Fin 5], [Fin 1, Fin 0, Fin 2, Fin 3],
      [Fin 5, Fin 2, Fin 0, Fin 4], [Fin 5, Fin 3, Fin 4, Fin 0]] 500 (Some 0) 1 2 = Fin 502 \<and>
   spec_cost [(0, 1), (0, 0), (1, 0), (- 1, 0)]
     [[Fin 0, Fin 1, Fin 5, Fin 5], [Fin 1, Fin 0, Fin 2, Fin 3],
      [Fin 5, Fin 2, Fin 0, Fin 4], [Fin 5, Fin 3, Fin 4, Fin 0]] 500 (Some 0) 1 3 = Fin 3 \<and>
   \<not> cost_less
       (spec_cost [(0, 1), (0, 0), (1, 0), (- 1, 0)]
          [[Fin 0, Fin 1, Fin 5, Fin 5], [Fin 1, Fin 0, Fin 2, Fin 3],
           [Fin 5, Fin 2, Fin 0, Fin 4], [Fin 5, Fin 3, Fin 4, Fin 0]] 500 (Some 0) 1 2)
       (spec_cost [(0, 1), (0, 0), (1, 0), (- 1, 0)]
          [[Fin 0, Fin 1, Fin 5, Fin 5], [Fin 1, Fin 0, Fin 2, Fin 3],
           [Fin 5, Fin 2, Fin 0, Fin 4], [Fin 5, Fin 3, Fin 4, Fin 0]] 500 (Some 0) 1 3) \<and>
   solve_tsp_nearest_neighbor_with_right_turn_penalty [(0, 1), (0, 0), (1, 0), (- 1, 0)]
     [[Fin 0, Fin 1, Fin 5, Fin 5], [Fin 1, Fin 0, Fin 2, Fin 3],
      [Fin 5, Fin 2, Fin 0, Fin 4], [Fin 5, Fin 3, Fin 4, Fin 0]] 0 = Inr [0, 1, 2, 3]"
proof -
  let ?C = "[(0, 1), (0, 0), (1, 0), (- 1, 0)] :: point list"
  let ?M = "[[Fin 0, Fin 1, Fin 5, Fin 5], [Fin 1, Fin 0, Fin 2, Fin 3],
             [Fin 5, Fin 2, Fin 0, Fin 4], [Fin 5, Fin 3, Fin 4, Fin 0]]"
  have k: "(1 :: nat) \<le> 2" "2 < length [0 :: nat, 1, 3, 2]" by simp_all
  have c2: "spec_cost ?C ?M 500 (Some 0) 1 2 = Fin 502"
    by (simp add: spec_cost_def angle_right)
  have c3: "spec_cost ?C ?M 500 (Some 0) 1 3 = Fin 3"
    by (simp add: spec_cost_def angle_left)
  have cand: "(2 :: nat) \<in> {1 ..< length ?M} - set (take 2 [0, 1, 3, 2])"
    by simp
  from right_turn_penalty_rule [OF solve_penalised_run k]
  have "\<forall>x \<in> {1 ..< length ?M} - set (take 2 [0, 1, 3, 2]).
          \<not> cost_less
              (spec_cost ?C ?M 500 (if (2 :: nat) = 1 then None else Some ([0, 1, 3, 2] ! (2 - 2)))
                 ([0, 1, 3, 2] ! (2 - 1)) x)
              (spec_cost ?C ?M 500 (if (2 :: nat) = 1 then None else Some ([0, 1, 3, 2] ! (2 - 2)))
                 ([0, 1, 3, 2] ! (2 - 1)) ([0, 1, 3, 2] ! 2))"
    by blast
  with cand have
    "\<not> cost_less
        (spec_cost ?C ?M 500 (if (2 :: nat) = 1 then None else Some ([0, 1, 3, 2] ! (2 - 2)))
           ([0, 1, 3, 2] ! (2 - 1)) 2)
        (spec_cost ?C ?M 500 (if (2 :: nat) = 1 then None else Some ([0, 1, 3, 2] ! (2 - 2)))
           ([0, 1, 3, 2] ! (2 - 1)) ([0, 1, 3, 2] ! 2))"
    by blast
  then have least: "\<not> cost_less (spec_cost ?C ?M 500 (Some 0) 1 2) (spec_cost ?C ?M 500 (Some 0) 1 3)"
    by simp
  from solve_penalised_run k c2 c3 least solve_unpenalised_run show ?thesis by blast
qed

subsection \<open>The diagonal of the matrix\<close>

lemma candidate_cost_agree:
  assumes "agree_off_diagonal m1 m2" "city \<noteq> cur"
  shows "candidate_cost coords m1 p prv cur city = candidate_cost coords m2 p prv cur city"
proof (cases "cur < length m1")
  case False
  with assms(1) show ?thesis
    by (simp add: candidate_cost_def getitem_def agree_off_diagonal_def)
next
  case True
  with assms(1) have len: "cur < length m2" "length (m1 ! cur) = length (m2 ! cur)"
    by (simp_all add: agree_off_diagonal_def)
  show ?thesis
  proof (cases "city < length (m1 ! cur)")
    case False
    with True len show ?thesis by (simp add: candidate_cost_def getitem_def)
  next
    case inr: True
    with assms True have "m1 ! cur ! city = m2 ! cur ! city"
      unfolding agree_off_diagonal_def by blast
    with True len inr show ?thesis by (simp add: candidate_cost_def getitem_def)
  qed
qed

lemma for_city_agree:
  assumes "agree_off_diagonal m1 m2" "cur \<notin> set cs"
  shows "for_city coords m1 p prv cur cs acc = for_city coords m2 p prv cur cs acc"
  using assms(2)
proof (induction cs arbitrary: acc)
  case Nil
  then show ?case by simp
next
  case (Cons city cs)
  then have "city \<noteq> cur" "cur \<notin> set cs" by auto
  with Cons.IH candidate_cost_agree [OF assms(1), of city cur coords p prv]
  show ?case by (cases acc) (simp split: sum.splits)
qed

lemma loop_body_agree:
  assumes "agree_off_diagonal m1 m2" "current s \<notin> set (unvisited s)"
  shows "loop_body coords m1 p s = loop_body coords m2 p s"
  unfolding loop_body_def for_city_agree [OF assms] ..

lemma loop_body_apart:
  assumes "loop_body coords matrix p s = Inr s'" "apart s"
  shows "apart s'"
proof -
  from loop_body_Inr [OF assms(1)]
  have s': "s' = \<lparr>unvisited = remove1 (current s') (unvisited s),
                   order = order s @ [current s'], current = current s', prev = Some (current s)\<rparr>"
    by blast
  then have u: "unvisited s' = remove1 (current s') (unvisited s)"
    by (metis state.select_convs(1))
  from assms(2) have "distinct (unvisited s)" by (simp add: apart_def)
  then show ?thesis unfolding apart_def u by simp
qed

lemma while_unvisited_agree:
  "agree_off_diagonal m1 m2 \<Longrightarrow> apart s \<Longrightarrow>
     while_unvisited coords m1 p s = while_unvisited coords m2 p s"
proof (induction coords m1 p s rule: while_unvisited.induct)
  case (1 coords matrix p s)
  show ?case
  proof (cases "unvisited s = []")
    case True
    then show ?thesis by (simp only: while_unvisited_done)
  next
    case False
    from "1.prems"(2) have notin: "current s \<notin> set (unvisited s)"
      by (simp add: apart_def)
    have same: "loop_body coords m2 p s = loop_body coords matrix p s"
      using loop_body_agree [OF "1.prems"(1) notin] by (rule sym)
    show ?thesis
    proof (cases "loop_body coords matrix p s")
      case (Inl e)
      then show ?thesis
        by (simp only: while_unvisited_unfold [OF False] same sum.case)
    next
      case (Inr s')
      from Inr "1.prems"(2) have "apart s'" by (rule loop_body_apart)
      with "1.IH" [OF False Inr "1.prems"(1)]
      have rec: "while_unvisited coords matrix p s' = while_unvisited coords m2 p s'" .
      show ?thesis
        by (simp only: while_unvisited_unfold [OF False] same Inr sum.case rec)
    qed
  qed
qed

lemma apart_initial: "apart (initial matrix)"
  by (simp add: apart_def initial_def)

text \<open>
  C9. Two matrices that agree on every off-diagonal entry give the same result, whatever
  their diagonals hold: the solver never reads \<^verbatim>\<open>matrix[i][i]\<close>.
\<close>

theorem diagonal_never_consulted:
  assumes "agree_off_diagonal m1 m2"
  shows "solve_tsp_nearest_neighbor_with_right_turn_penalty coords m1 p =
         solve_tsp_nearest_neighbor_with_right_turn_penalty coords m2 p"
proof -
  from assms have "initial m1 = initial m2"
    by (simp add: initial_def agree_off_diagonal_def)
  with while_unvisited_agree [OF assms apart_initial, of coords p m1]
  show ?thesis
    by (simp add: solve_tsp_nearest_neighbor_with_right_turn_penalty_def)
qed

theorem diagonal_never_consulted_witness:
  "agree_off_diagonal [[Fin 0, Fin 3], [Fin 3, Fin 0]] [[Fin 7, Fin 3], [Fin 3, PInf]] \<and>
   solve_tsp_nearest_neighbor_with_right_turn_penalty [(0, 0), (1, 1)]
     [[Fin 0, Fin 3], [Fin 3, Fin 0]] 500 =
   solve_tsp_nearest_neighbor_with_right_turn_penalty [(0, 0), (1, 1)]
     [[Fin 7, Fin 3], [Fin 3, PInf]] 500 \<and>
   solve_tsp_nearest_neighbor_with_right_turn_penalty [(0, 0), (1, 1)]
     [[Fin 7, Fin 3], [Fin 3, PInf]] 500 = Inr [0, 1]"
proof -
  have agree: "agree_off_diagonal [[Fin 0, Fin 3], [Fin 3, Fin 0]] [[Fin 7, Fin 3], [Fin 3, PInf]]"
    by (simp add: agree_off_diagonal_def less_Suc_eq nth_Cons')
  have run: "solve_tsp_nearest_neighbor_with_right_turn_penalty [(0, 0), (1, 1)]
     [[Fin 7, Fin 3], [Fin 3, PInf]] 500 = Inr [0, 1]"
    by (simp add: solve_tsp_nearest_neighbor_with_right_turn_penalty_def initial_def upt_rec
        while_unvisited.simps loop_body_def candidate_cost_def getitem_def set_remove_def)
  from agree run diagonal_never_consulted [OF agree, of "[(0, 0), (1, 1)]" 500]
  show ?thesis by blast
qed

subsection \<open>Permutations and the number of iterations\<close>

lemma tour_current: "tour n s \<Longrightarrow> current s < n \<and> current s \<notin> set (unvisited s)"
proof -
  assume t: "tour n s"
  then have "current s \<in> set (order s)" by (simp add: tour_def)
  with t show ?thesis unfolding tour_def by (metis Un_iff atLeastLessThan_iff distinct_append disjoint_iff set_append)
qed

lemma tour_initial: "1 \<le> length matrix \<Longrightarrow> tour (length matrix) (initial matrix)"
  by (auto simp: tour_def initial_def)

lemma loop_body_tour:
  assumes "loop_body coords matrix p s = Inr s'" "tour n s"
  shows "tour n s'"
proof -
  from loop_body_Inr [OF assms(1)]
  have mem: "current s' \<in> set (unvisited s)"
    and s': "s' = \<lparr>unvisited = remove1 (current s') (unvisited s),
                   order = order s @ [current s'], current = current s', prev = Some (current s)\<rparr>"
    by blast+
  have u: "unvisited s' = remove1 (current s') (unvisited s)"
    and ord: "order s' = order s @ [current s']"
    and prv: "prev s' = Some (current s)"
    by (subst s', simp)+
  from assms(2) have d: "distinct (order s)" "distinct (unvisited s)"
    "set (order s) \<inter> set (unvisited s) = {}"
    and cover: "set (order s) \<union> set (unvisited s) = {0 ..< n}"
    and ne: "order s \<noteq> []" and h: "hd (order s) = 0"
    by (simp_all add: tour_def)
  from d mem have "distinct (order s' @ unvisited s')"
    unfolding u ord by auto
  moreover from d mem cover have "set (order s' @ unvisited s') = {0 ..< n}"
    unfolding u ord by auto
  moreover from ne h have "order s' \<noteq> []" "hd (order s') = 0"
    unfolding ord by simp_all
  moreover have "current s' = last (order s')" unfolding ord by simp
  moreover from tour_current [OF assms(2)] have "\<forall>q. prev s' = Some q \<longrightarrow> q < n"
    unfolding prv by simp
  ultimately show ?thesis unfolding tour_def by blast
qed

lemma loop_body_length:
  assumes "loop_body coords matrix p s = Inr s'"
  shows "Suc (length (unvisited s')) = length (unvisited s)"
proof -
  from loop_body_Inr [OF assms]
  have mem: "current s' \<in> set (unvisited s)"
    and s': "s' = \<lparr>unvisited = remove1 (current s') (unvisited s),
                   order = order s @ [current s'], current = current s', prev = Some (current s)\<rparr>"
    by blast+
  have u: "unvisited s' = remove1 (current s') (unvisited s)"
    by (subst s', simp)
  from mem have "0 < length (unvisited s)" by (rule length_pos_if_in_set)
  with mem show ?thesis unfolding u by (simp add: length_remove1)
qed

lemma while_unvisited_tour:
  "while_unvisited coords matrix p s = Inr t \<Longrightarrow> tour n s \<Longrightarrow>
     tour n t \<and> unvisited t = [] \<and> iterations coords matrix p s = length (unvisited s)"
proof (induction coords matrix p s rule: while_unvisited.induct)
  case (1 coords matrix p s)
  show ?case
  proof (cases "unvisited s = []")
    case True
    with "1.prems" show ?thesis
      by (simp add: while_unvisited_done iterations_done)
  next
    case False
    show ?thesis
    proof (cases "loop_body coords matrix p s")
      case (Inl e)
      with "1.prems"(1) False show ?thesis
        by (simp add: while_unvisited_unfold)
    next
      case (Inr s')
      with "1.prems"(1) False have run: "while_unvisited coords matrix p s' = Inr t"
        by (simp add: while_unvisited_unfold)
      from Inr "1.prems"(2) have "tour n s'" by (rule loop_body_tour)
      with "1.IH" [OF False Inr run]
      have "tour n t \<and> unvisited t = [] \<and>
            iterations coords matrix p s' = length (unvisited s')" .
      with loop_body_length [OF Inr] Inr False show ?thesis
        by (simp add: iterations_unfold)
    qed
  qed
qed

lemma tour_done:
  assumes "tour n s" "unvisited s = []"
  shows "length (order s) = n \<and> distinct (order s) \<and> set (order s) = {0 ..< n} \<and>
         hd (order s) = 0"
proof -
  from assms have d: "distinct (order s)" and st: "set (order s) = {0 ..< n}"
    and h: "hd (order s) = 0"
    by (simp_all add: tour_def)
  from d have "length (order s) = card (set (order s))" by (simp add: distinct_card)
  with st have "length (order s) = n" by simp
  with d st h show ?thesis by simp
qed

text \<open>Whenever the solver returns an order, the order is a permutation.\<close>

lemma solve_returns_permutation:
  assumes "1 \<le> length matrix"
    and "solve_tsp_nearest_neighbor_with_right_turn_penalty coords matrix p = Inr ord"
  shows "length ord = length matrix \<and> distinct ord \<and> set ord = {0 ..< length matrix} \<and>
         hd ord = 0 \<and> iterations coords matrix p (initial matrix) = length matrix - 1"
proof -
  from assms(2) obtain t where run: "while_unvisited coords matrix p (initial matrix) = Inr t"
    and ord: "ord = order t"
    by (auto simp: solve_tsp_nearest_neighbor_with_right_turn_penalty_def split: sum.splits)
  from while_unvisited_tour [OF run tour_initial [OF assms(1)]]
  have t: "tour (length matrix) t" "unvisited t = []"
    and it: "iterations coords matrix p (initial matrix) = length (unvisited (initial matrix))"
    by blast+
  from it have "iterations coords matrix p (initial matrix) = length matrix - 1"
    by (simp add: initial_def)
  with tour_done [OF t] ord show ?thesis by simp
qed

lemma candidate_cost_finite:
  assumes "well_formed coords matrix" "all_reachable matrix"
    and "cur < length matrix" "city < length matrix" "city \<noteq> cur"
    and "\<forall>q. prv = Some q \<longrightarrow> q < length matrix"
  shows "\<exists>r. candidate_cost coords matrix p prv cur city = Inr (Fin r)"
proof -
  from assms(1,3) have row: "length (matrix ! cur) = length matrix"
    by (simp add: well_formed_def)
  from assms(2-5) have "matrix ! cur ! city \<noteq> PInf"
    unfolding all_reachable_def by blast
  then obtain r where r: "matrix ! cur ! city = Fin r" by (cases "matrix ! cur ! city") simp_all
  from assms(1) have len: "length coords = length matrix" by (simp add: well_formed_def)
  show ?thesis
  proof (cases prv)
    case None
    with assms(3,4) row r show ?thesis by (simp add: candidate_cost_def getitem_def)
  next
    case (Some q)
    with assms(6) have "q < length matrix" by simp
    with Some assms(3,4) row r len show ?thesis
      by (simp add: candidate_cost_def getitem_def Let_def)
  qed
qed

lemma for_city_total:
  assumes "\<forall>x \<in> set cs. \<exists>k. candidate_cost coords matrix p prv cur x = Inr k"
  shows "\<exists>m nc. for_city coords matrix p prv cur cs acc = Inr (m, nc)"
  using assms
proof (induction cs arbitrary: acc)
  case Nil
  then show ?case by (cases acc) simp
next
  case (Cons city cs)
  then obtain k where k: "candidate_cost coords matrix p prv cur city = Inr k" by auto
  from Cons.prems have rest: "\<forall>x \<in> set cs. \<exists>k. candidate_cost coords matrix p prv cur x = Inr k"
    by simp
  obtain m0 nc0 where acc: "acc = (m0, nc0)" by (cases acc)
  from Cons.IH [OF rest] k show ?case unfolding acc by simp
qed

lemma loop_body_succeeds:
  assumes "well_formed coords matrix" "all_reachable matrix"
    and "tour (length matrix) s" "unvisited s \<noteq> []"
  shows "\<exists>s'. loop_body coords matrix p s = Inr s'"
proof -
  from tour_current [OF assms(3)]
  have cur: "current s < length matrix" "current s \<notin> set (unvisited s)" by blast+
  from assms(3) have sub: "set (unvisited s) \<subseteq> {0 ..< length matrix}"
    and prv: "\<forall>q. prev s = Some q \<longrightarrow> q < length matrix"
    unfolding tour_def by auto
  have fin: "\<exists>r. candidate_cost coords matrix p (prev s) (current s) x = Inr (Fin r)"
    if "x \<in> set (unvisited s)" for x
  proof -
    from that sub cur have "x < length matrix" "x \<noteq> current s" by auto
    with assms(1,2) cur(1) prv show ?thesis by (intro candidate_cost_finite) simp_all
  qed
  then have "\<forall>x \<in> set (unvisited s). \<exists>k. candidate_cost coords matrix p (prev s) (current s) x = Inr k"
    by blast
  from for_city_total [OF this] obtain m nc where
    run: "for_city coords matrix p (prev s) (current s) (unvisited s) (PInf, None) = Inr (m, nc)"
    by blast
  from assms(4) obtain x where x: "x \<in> set (unvisited s)" by (cases "unvisited s") auto
  show ?thesis
  proof (cases nc)
    case None
    with run for_city_no_winner have
      "candidate_cost coords matrix p (prev s) (current s) x = Inr PInf"
      using x by blast
    with fin [OF x] show ?thesis by simp
  next
    case (Some c)
    with run for_city_winner have "c \<in> set (unvisited s)" by fastforce
    with run Some show ?thesis by (simp add: loop_body_def set_remove_def)
  qed
qed

lemma while_unvisited_succeeds:
  "well_formed coords matrix \<Longrightarrow> all_reachable matrix \<Longrightarrow> tour (length matrix) s \<Longrightarrow>
     \<exists>t. while_unvisited coords matrix p s = Inr t"
proof (induction coords matrix p s rule: while_unvisited.induct)
  case (1 coords matrix p s)
  show ?case
  proof (cases "unvisited s = []")
    case True
    then show ?thesis by (simp add: while_unvisited_done)
  next
    case False
    from loop_body_succeeds [OF "1.prems" False]
    obtain s' where step: "loop_body coords matrix p s = Inr s'" by blast
    from step "1.prems"(3) have "tour (length matrix) s'" by (rule loop_body_tour)
    with "1.IH" [OF False step "1.prems"(1,2)]
    obtain t where "while_unvisited coords matrix p s' = Inr t" by blast
    with step False show ?thesis by (simp add: while_unvisited_unfold)
  qed
qed

text \<open>With every off-diagonal entry finite, the solver returns a permutation.\<close>

lemma solve_all_reachable:
  assumes "1 \<le> length matrix" "well_formed coords matrix" "all_reachable matrix"
  shows "\<exists>ord. solve_tsp_nearest_neighbor_with_right_turn_penalty coords matrix p = Inr ord \<and>
           length ord = length matrix \<and> distinct ord \<and> set ord = {0 ..< length matrix} \<and>
           hd ord = 0 \<and> iterations coords matrix p (initial matrix) = length matrix - 1"
proof -
  from while_unvisited_succeeds [OF assms(2,3) tour_initial [OF assms(1)]]
  obtain t where "while_unvisited coords matrix p (initial matrix) = Inr t" by blast
  then have "solve_tsp_nearest_neighbor_with_right_turn_penalty coords matrix p = Inr (order t)"
    by (simp add: solve_tsp_nearest_neighbor_with_right_turn_penalty_def)
  with solve_returns_permutation [OF assms(1)] show ?thesis by blast
qed

subsection \<open>Unreachable candidates\<close>

text \<open>A step in which every candidate costs \<open>+\<infinity>\<close> keeps \<^verbatim>\<open>next_city = None\<close> and
  raises KeyError.\<close>

lemma for_city_all_unreachable:
  assumes "\<forall>x \<in> set cs. candidate_cost coords matrix p prv cur x = Inr PInf"
  shows "for_city coords matrix p prv cur cs (PInf, None) = Inr (PInf, None)"
  using assms by (induction cs) simp_all

lemma loop_body_all_unreachable:
  assumes "\<forall>x \<in> set (unvisited s).
             candidate_cost coords matrix p (prev s) (current s) x = Inr PInf"
  shows "loop_body coords matrix p s = Inl KeyError"
  unfolding loop_body_def for_city_all_unreachable [OF assms] by simp

lemma while_unvisited_all_unreachable:
  assumes "unvisited s \<noteq> []"
    and "\<forall>x \<in> set (unvisited s).
           candidate_cost coords matrix p (prev s) (current s) x = Inr PInf"
  shows "while_unvisited coords matrix p s = Inl KeyError"
  using assms(1) loop_body_all_unreachable [OF assms(2)]
  by (simp add: while_unvisited_unfold)

text \<open>
  C1. Two stops, neither reachable from the other: the only candidate of the first step
  has cost \<open>+\<infinity>\<close>. The comparison \<^verbatim>\<open>cost < min_cost\<close> is false for it, \<^verbatim>\<open>next_city\<close>
  is still \<^verbatim>\<open>None\<close> after the scan, and \<^verbatim>\<open>unvisited.remove(None)\<close> raises KeyError:
  no city is selected and no order is returned.
\<close>

theorem solve_unreachable_pair_raises:
  "solve_tsp_nearest_neighbor_with_right_turn_penalty
     [(0, 0), (1, 1)] [[Fin 0, PInf], [PInf, Fin 0]] 500 = Inl KeyError"
  by (simp add: solve_tsp_nearest_neighbor_with_right_turn_penalty_def initial_def upt_rec
      while_unvisited.simps loop_body_def candidate_cost_def getitem_def)

text \<open>
  C2. Three stops with a square matrix in which the last remaining candidate is unreachable
  from the second stop: the first step selects city 1, the second step finds only a
  candidate of cost \<open>+\<infinity>\<close>, and the solver raises KeyError instead of returning a
  permutation of \<open>0..2\<close>.
\<close>

theorem solve_last_candidate_unreachable_raises:
  "solve_tsp_nearest_neighbor_with_right_turn_penalty [(0, 0), (1, 0), (2, 0)]
     [[Fin 0, Fin 1, Fin 2], [Fin 1, Fin 0, PInf], [Fin 2, PInf, Fin 0]] 500 = Inl KeyError"
  by (simp add: solve_tsp_nearest_neighbor_with_right_turn_penalty_def initial_def upt_rec
      while_unvisited.simps loop_body_def candidate_cost_def getitem_def set_remove_def
      angle_straight)

text \<open>
  C7. Three stops, all pairs unreachable: the first execution of the loop body raises
  KeyError, so the loop ends after 0 complete iterations, not after \<open>n - 1 = 2\<close>.
\<close>

theorem iterations_unreachable_stops_early:
  "iterations [(0, 0), (1, 0), (2, 0)]
     [[Fin 0, PInf, PInf], [PInf, Fin 0, PInf], [PInf, PInf, Fin 0]] 500
     (initial [[Fin 0, PInf, PInf], [PInf, Fin 0, PInf], [PInf, PInf, Fin 0]]) = 0 \<and>
   solve_tsp_nearest_neighbor_with_right_turn_penalty [(0, 0), (1, 0), (2, 0)]
     [[Fin 0, PInf, PInf], [PInf, Fin 0, PInf], [PInf, PInf, Fin 0]] 500 = Inl KeyError"
  by (simp add: solve_tsp_nearest_neighbor_with_right_turn_penalty_def initial_def upt_rec
      while_unvisited.simps iterations.simps loop_body_def candidate_cost_def getitem_def)

end
